theory Spec2Isabelle
  imports Main
begin

section \<open>Python strings and containers\<close>

text \<open>
  A Python \<open>str\<close> is modelled as a \<open>string\<close> (a list of characters). The character
  classes of \<open>str.isspace\<close>, \<open>str.isalpha\<close>, \<open>str.isupper\<close>, \<open>str.lower\<close>,
  \<open>str.upper\<close> and of the regular expression class \<open>\s\<close> are modelled on the ASCII range:
  a character outside ASCII is neither whitespace nor a letter and has no case. The
  development is therefore about ASCII BibTeX text.

  Exceptions and \<open>exit(1)\<close> are values of the type \<open>error\<close>; a function that can raise
  returns \<open>error + 'a\<close>.
\<close>

datatype error =
    IndexError
  | KeyError string
  | ValueError
  | DuplicateEntry string
  | AuthorError string

definition isspace :: "char \<Rightarrow> bool" where
  "isspace c = (let n = (of_char c :: nat) in (9 \<le> n \<and> n \<le> 13) \<or> (28 \<le> n \<and> n \<le> 32))"

definition isupper_c :: "char \<Rightarrow> bool" where
  "isupper_c c = (let n = (of_char c :: nat) in 65 \<le> n \<and> n \<le> 90)"

definition islower_c :: "char \<Rightarrow> bool" where
  "islower_c c = (let n = (of_char c :: nat) in 97 \<le> n \<and> n \<le> 122)"

definition isalpha_c :: "char \<Rightarrow> bool" where
  "isalpha_c c = (isupper_c c \<or> islower_c c)"

definition lower_c :: "char \<Rightarrow> char" where
  "lower_c c = (if isupper_c c then char_of ((of_char c :: nat) + 32) else c)"

definition upper_c :: "char \<Rightarrow> char" where
  "upper_c c = (if islower_c c then char_of ((of_char c :: nat) - 32) else c)"

text \<open>\<open>s.isalpha()\<close>: non-empty and every character is a letter.\<close>

definition isalpha :: "string \<Rightarrow> bool" where
  "isalpha s = (s \<noteq> [] \<and> list_all isalpha_c s)"

text \<open>\<open>s.isupper()\<close>: at least one cased character and no lowercase character.\<close>

definition isupper :: "string \<Rightarrow> bool" where
  "isupper s = (list_ex isupper_c s \<and> \<not> list_ex islower_c s)"

definition lower :: "string \<Rightarrow> string" where
  "lower s = map lower_c s"

definition upper :: "string \<Rightarrow> string" where
  "upper s = map upper_c s"

text \<open>\<open>s.strip()\<close>, \<open>s.rstrip(",")\<close>.\<close>

definition strip :: "string \<Rightarrow> string" where
  "strip s = rev (dropWhile isspace (rev (dropWhile isspace s)))"

definition rstrip :: "char \<Rightarrow> string \<Rightarrow> string" where
  "rstrip c s = rev (dropWhile (\<lambda>x. x = c) (rev s))"

text \<open>\<open>s.split(sep)\<close> for a one-character separator: always at least one piece.\<close>

fun split :: "char \<Rightarrow> string \<Rightarrow> string list" where
  "split sep [] = [[]]"
| "split sep (c # cs) =
     (if c = sep then [] # split sep cs
      else (case split sep cs of [] \<Rightarrow> [[c]] | w # ws \<Rightarrow> (c # w) # ws))"

text \<open>\<open>s.split(sep, 1)\<close> and \<open>s.rsplit(sep, 1)\<close>: at most one cut, at the first
  (respectively last) separator.\<close>

definition split1 :: "char \<Rightarrow> string \<Rightarrow> string list" where
  "split1 sep s =
     (if sep \<in> set s then [takeWhile (\<lambda>x. x \<noteq> sep) s, tl (dropWhile (\<lambda>x. x \<noteq> sep) s)]
      else [s])"

definition rsplit1 :: "char \<Rightarrow> string \<Rightarrow> string list" where
  "rsplit1 sep s =
     (if sep \<in> set s
      then [rev (tl (dropWhile (\<lambda>x. x \<noteq> sep) (rev s))), rev (takeWhile (\<lambda>x. x \<noteq> sep) (rev s))]
      else [s])"

text \<open>\<open>sep.join(xs)\<close>.\<close>

fun join :: "string \<Rightarrow> string list \<Rightarrow> string" where
  "join sep [] = []"
| "join sep [x] = x"
| "join sep (x # y # ys) = x @ sep @ join sep (y # ys)"

text \<open>\<open>s.split()\<close>: the maximal runs of non-whitespace characters; \<open>cur\<close> is the run
  being read.\<close>

fun split_ws_from :: "string \<Rightarrow> string \<Rightarrow> string list" where
  "split_ws_from cur [] = (if cur = [] then [] else [cur])"
| "split_ws_from cur (c # cs) =
     (if isspace c then (if cur = [] then split_ws_from [] cs else cur # split_ws_from [] cs)
      else split_ws_from (cur @ [c]) cs)"

definition split_ws :: "string \<Rightarrow> string list" where
  "split_ws s = split_ws_from [] s"

text \<open>\<open>s.replace(old, new)\<close>, leftmost non-overlapping occurrences. Only a non-empty
  \<open>old\<close> occurs in the program (\<open>"."\<close>, and \<open>"-" * n\<close> with \<open>n > 1\<close>); for an empty
  \<open>old\<close> the model returns \<open>s\<close>.\<close>

function replace :: "string \<Rightarrow> string \<Rightarrow> string \<Rightarrow> string" where
  "replace old new s =
     (if s = [] then []
      else if old \<noteq> [] \<and> take (length old) s = old
           then new @ replace old new (drop (length old) s)
      else hd s # replace old new (tl s))"
  by pat_completeness auto
termination
  by (relation "measure (\<lambda>(old, new, s). length s)") auto

declare replace.simps [simp del]

text \<open>\<open>s.count(c)\<close> for a one-character string.\<close>

definition count :: "char \<Rightarrow> string \<Rightarrow> nat" where
  "count c s = length (filter (\<lambda>x. x = c) s)"

text \<open>\<open>s[i]\<close> for \<open>i \<ge> 0\<close>: IndexError out of range. \<open>s[a:b]\<close> for \<open>0 \<le> a, b\<close>.\<close>

definition char_at :: "string \<Rightarrow> nat \<Rightarrow> error + char" where
  "char_at s i = (if i < length s then Inr (s ! i) else Inl IndexError)"

definition slice :: "string \<Rightarrow> nat \<Rightarrow> nat \<Rightarrow> string" where
  "slice s a b = drop a (take b s)"

text \<open>\<open>s.rfind(c, 0, e) + 1\<close> for a one-character string: one past the last position
  below \<open>e\<close> that holds \<open>c\<close>, and 0 when there is none (\<open>rfind\<close> returns -1).\<close>

fun rfind_plus1 :: "char \<Rightarrow> string \<Rightarrow> nat \<Rightarrow> nat" where
  "rfind_plus1 c s 0 = 0"
| "rfind_plus1 c s (Suc e) = (if e < length s \<and> s ! e = c then Suc e else rfind_plus1 c s e)"

text \<open>An \<open>OrderedDict\<close> is an association list with distinct keys in insertion order.
  \<open>d[k] = v\<close> replaces the value in place when \<open>k\<close> is present and appends otherwise;
  \<open>del d[k]\<close> removes the pair; \<open>k in d\<close> looks the key up.\<close>

fun od_set :: "('k \<times> 'v) list \<Rightarrow> 'k \<Rightarrow> 'v \<Rightarrow> ('k \<times> 'v) list" where
  "od_set [] k v = [(k, v)]"
| "od_set ((k', v') # kvs) k v =
     (if k' = k then (k, v) # kvs else (k', v') # od_set kvs k v)"

definition od_in :: "'k \<Rightarrow> ('k \<times> 'v) list \<Rightarrow> bool" where
  "od_in k kvs = (k \<in> set (map fst kvs))"

definition od_del :: "'k \<Rightarrow> ('k \<times> 'v) list \<Rightarrow> ('k \<times> 'v) list" where
  "od_del k kvs = filter (\<lambda>kv. fst kv \<noteq> k) kvs"

definition od_update :: "('k \<times> 'v) list \<Rightarrow> ('k \<times> 'v) list \<Rightarrow> ('k \<times> 'v) list" where
  "od_update d other = foldl (\<lambda>acc kv. od_set acc (fst kv) (snd kv)) d other"

section \<open>The value extractor\<close>

text \<open>
  \<open>extract_value(text, start_index)\<close>: the loop state is \<open>index\<close>, \<open>brace_level\<close>,
  \<open>in_quotes\<close> and \<open>value\<close>. \<open>strip_braces\<close> is the returned expression
  \<open>value[1:-1] if value.startswith("{") and value.endswith("}") else value\<close>.
\<close>

definition startswith :: "string \<Rightarrow> char \<Rightarrow> bool" where
  "startswith s c = (s \<noteq> [] \<and> hd s = c)"

definition endswith :: "string \<Rightarrow> char \<Rightarrow> bool" where
  "endswith s c = (s \<noteq> [] \<and> last s = c)"

definition strip_braces :: "string \<Rightarrow> string" where
  "strip_braces v = (if startswith v (CHR ''{'') \<and> endswith v (CHR ''}'') then butlast (tl v) else v)"

function extract_value_loop :: "string \<Rightarrow> nat \<Rightarrow> int \<Rightarrow> bool \<Rightarrow> string \<Rightarrow> error + (string \<times> nat)" where
  "extract_value_loop text index brace_level in_quotes value =
     (if index < length text then
        (case char_at text index of
           Inl e \<Rightarrow> Inl e
         | Inr ch \<Rightarrow>
            if ch = CHR ''{'' then
              extract_value_loop text (index + 1) (brace_level + 1) in_quotes (value @ [ch])
            else if ch = CHR ''}'' then
              (if brace_level - 1 = 0 then Inr (strip_braces (value @ [ch]), index)
               else extract_value_loop text (index + 1) (brace_level - 1) in_quotes (value @ [ch]))
            else if ch = CHR 0x22 then
              extract_value_loop text (index + 1) brace_level (\<not> in_quotes) (value @ [ch])
            else if ch = CHR '','' \<and> brace_level = 0 \<and> \<not> in_quotes then Inr (value, index)
            else extract_value_loop text (index + 1) brace_level in_quotes (value @ [ch]))
      else Inr (value, index))"
  by pat_completeness auto
termination
  by (relation "measure (\<lambda>(text, index, brace_level, in_quotes, value). length text - index)") auto

declare extract_value_loop.simps [simp del]

definition extract_value :: "string \<Rightarrow> nat \<Rightarrow> error + (string \<times> nat)" where
  "extract_value text start_index = extract_value_loop text start_index 0 False []"

lemma extract_value_loop_index:
  "extract_value_loop text index brace_level in_quotes value = Inr (v, j) \<Longrightarrow> index \<le> j"
proof (induction "text" index brace_level in_quotes "value" rule: extract_value_loop.induct)
  case (1 t index brace_level in_quotes w)
  show ?case
  proof (cases "index < length t")
    case True
    then have c: "char_at t index = Inr (t ! index)"
      by (simp add: char_at_def)
    from "1.prems" "1.IH" True c show ?thesis
      by (subst (asm) extract_value_loop.simps) (auto split: if_splits)
  next
    case False
    with "1.prems" show ?thesis
      by (subst (asm) extract_value_loop.simps) simp
  qed
qed

section \<open>Name abbreviation and author lists\<close>

definition is_all_uppercase :: "string \<Rightarrow> bool" where
  "is_all_uppercase s = (isalpha s \<and> isupper s)"

text \<open>The body of the loop of \<open>abbreviate_name\<close>; \<open>filter(None, ...)\<close> drops the empty
  strings, and \<open>part[0]\<close> raises on an empty part.\<close>

definition abbreviate_part :: "string \<Rightarrow> string \<Rightarrow> error + string" where
  "abbreviate_part joinname part =
     (if is_all_uppercase part then
        Inr (join '' '' (filter (\<lambda>s. s \<noteq> []) (joinname # map (\<lambda>letter. [letter] @ ''.'') part)))
      else if isalpha part then
        (case char_at part 0 of
           Inl e \<Rightarrow> Inl e
         | Inr c \<Rightarrow> Inr (join '' '' (filter (\<lambda>s. s \<noteq> []) [joinname, upper [c] @ ''.''])))
      else Inr (join '' '' (filter (\<lambda>s. s \<noteq> []) [joinname, part])))"

fun abbreviate_loop :: "string \<Rightarrow> string list \<Rightarrow> error + string" where
  "abbreviate_loop joinname [] = Inr joinname"
| "abbreviate_loop joinname (part # name_parts) =
     (case abbreviate_part joinname part of
        Inl e \<Rightarrow> Inl e
      | Inr joinname' \<Rightarrow> abbreviate_loop joinname' name_parts)"

definition abbreviate_name :: "string \<Rightarrow> error + string" where
  "abbreviate_name name = abbreviate_loop [] (split_ws (replace ''.'' ''. '' name))"

text \<open>
  \<open>re.split(r"\s+and\s+", author_str)\<close>. \<open>match_and s\<close> is the rest of \<open>s\<close> after a match
  of the pattern at the start of \<open>s\<close>: both \<open>\s+\<close> are greedy, and giving back whitespace
  cannot help, since the next pattern character is the letter \<open>a\<close> or the end of the
  pattern. \<open>re_split_from cur s\<close> scans for the leftmost match; \<open>cur\<close> is the piece being
  read.
\<close>

definition match_and :: "string \<Rightarrow> string option" where
  "match_and s =
     (let r1 = dropWhile isspace s in
      if takeWhile isspace s = [] then None
      else if take 3 r1 = ''and'' then
        (let r2 = drop 3 r1 in
         if takeWhile isspace r2 = [] then None else Some (dropWhile isspace r2))
      else None)"

lemma match_and_shorter: "match_and s = Some r \<Longrightarrow> length r < length s"
proof -
  assume a: "match_and s = Some r"
  have l1: "length (dropWhile isspace s) \<le> length s"
    by (rule length_dropWhile_le)
  have l2: "length (dropWhile isspace (drop 3 (dropWhile isspace s))) \<le> length (drop 3 (dropWhile isspace s))"
    by (rule length_dropWhile_le)
  from a have r: "r = dropWhile isspace (drop 3 (dropWhile isspace s))"
    and t: "take 3 (dropWhile isspace s) = ''and''"
    by (auto simp: match_and_def Let_def split: if_splits)
  have "dropWhile isspace s \<noteq> []"
  proof
    assume "dropWhile isspace s = []"
    with t show False by simp
  qed
  with l1 l2 r show ?thesis by (cases "dropWhile isspace s") auto
qed

function re_split_from :: "string \<Rightarrow> string \<Rightarrow> string list" where
  "re_split_from cur s =
     (if s = [] then [cur]
      else (case match_and s of
              Some rest \<Rightarrow> cur # re_split_from [] rest
            | None \<Rightarrow> re_split_from (cur @ [hd s]) (tl s)))"
  by pat_completeness auto
termination
  by (relation "measure (\<lambda>(cur, s). length s)") (auto dest: match_and_shorter)

declare re_split_from.simps [simp del]

definition re_split_and :: "string \<Rightarrow> string list" where
  "re_split_and s = re_split_from [] s"

text \<open>The body of the loop of \<open>split_authors\<close> (the source's \<open>first\<close> and \<open>last\<close> are
  \<open>first_name\<close> and \<open>last_name\<close> here); unpacking a list that has not two elements
  raises ValueError.\<close>

definition format_author :: "string \<Rightarrow> error + string" where
  "format_author author0 =
     (let author = strip author0 in
      if CHR '','' \<in> set author then
        (case map strip (split1 (CHR '','') author) of
           [last_name, first_name] \<Rightarrow>
             (case abbreviate_name first_name of
                Inl e \<Rightarrow> Inl e
              | Inr a \<Rightarrow> Inr (a @ '' '' @ last_name))
         | _ \<Rightarrow> Inl ValueError)
      else if CHR '' '' \<in> set author then
        (case rsplit1 (CHR '' '') author of
           [first_name, last_name] \<Rightarrow>
             (case abbreviate_name first_name of
                Inl e \<Rightarrow> Inl e
              | Inr a \<Rightarrow> Inr (a @ '' '' @ last_name))
         | _ \<Rightarrow> Inl ValueError)
      else Inr author)"

fun format_authors :: "string list \<Rightarrow> error + string list" where
  "format_authors [] = Inr []"
| "format_authors (author # authors) =
     (case format_author author of
        Inl e \<Rightarrow> Inl e
      | Inr f \<Rightarrow> (case format_authors authors of Inl e \<Rightarrow> Inl e | Inr fs \<Rightarrow> Inr (f # fs)))"

text \<open>The \<open>try\<close>/\<open>except\<close> of \<open>split_authors\<close> turns every exception of the loop into
  the fatal exit that prints the raw author string.\<close>

definition split_authors :: "string \<Rightarrow> error + string list" where
  "split_authors author_str =
     (case format_authors (re_split_and author_str) of
        Inl e \<Rightarrow> Inl (AuthorError author_str)
      | Inr formatted_authors \<Rightarrow> Inr formatted_authors)"

section \<open>The field parser\<close>

definition NL :: char where
  "NL = CHR 0x0A"

definition TAB :: char where
  "TAB = CHR 0x09"

definition DQ :: char where
  "DQ = CHR 0x22"

type_synonym fields = "(string \<times> string) list"

text \<open>The inner loop of \<open>parse_fields\<close> that skips the characters of \<open>" \t\n"\<close>.\<close>

function skip_whitespace :: "string \<Rightarrow> nat \<Rightarrow> error + nat" where
  "skip_whitespace field_text index =
     (if index < length field_text then
        (case char_at field_text index of
           Inl e \<Rightarrow> Inl e
         | Inr ch \<Rightarrow>
            if ch \<in> set [CHR '' '', TAB, NL] then skip_whitespace field_text (index + 1)
            else Inr index)
      else Inr index)"
  by pat_completeness auto
termination
  by (relation "measure (\<lambda>(field_text, index). length field_text - index)") auto

declare skip_whitespace.simps [simp del]

lemma skip_whitespace_index: "skip_whitespace field_text index = Inr j \<Longrightarrow> index \<le> j"
proof (induction field_text index rule: skip_whitespace.induct)
  case (1 field_text index)
  show ?case
  proof (cases "index < length field_text")
    case True
    then have c: "char_at field_text index = Inr (field_text ! index)"
      by (simp add: char_at_def)
    from "1.prems" "1.IH" True c show ?thesis
      by (subst (asm) skip_whitespace.simps) (auto split: if_splits)
  next
    case False
    with "1.prems" show ?thesis
      by (subst (asm) skip_whitespace.simps) simp
  qed
qed

text \<open>The per-key rules of \<open>parse_fields\<close>: the author and editor lists, and the pages.\<close>

definition normalize_field :: "string \<Rightarrow> string \<Rightarrow> error + string" where
  "normalize_field key value =
     (if key \<in> set [''author'', ''editor''] then
        (case split_authors value of
           Inl e \<Rightarrow> Inl e
         | Inr names \<Rightarrow> Inr (join '' and '' names))
      else if key = ''pages'' then
        (let n = count (CHR ''-'') value in
         if n > 1 then Inr (replace (replicate n (CHR ''-'')) ''-'' value) else Inr value)
      else Inr value)"

function parse_fields_loop :: "string \<Rightarrow> nat \<Rightarrow> fields \<Rightarrow> error + fields" where
  "parse_fields_loop field_text index fields =
     (if index < length field_text then
        (case char_at field_text index of
           Inl e \<Rightarrow> Inl e
         | Inr ch \<Rightarrow>
            if ch = CHR ''='' then
              (let key_start = rfind_plus1 NL field_text index;
                   key = lower (strip (slice field_text key_start index))
               in case skip_whitespace field_text (index + 1) of
                    Inl e \<Rightarrow> Inl e
                  | Inr index1 \<Rightarrow>
                     (case extract_value field_text index1 of
                        Inl e \<Rightarrow> Inl e
                      | Inr (value, index2) \<Rightarrow>
                         (case normalize_field key (rstrip (CHR '','') value) of
                            Inl e \<Rightarrow> Inl e
                          | Inr value' \<Rightarrow>
                             parse_fields_loop field_text (index2 + 1)
                               (od_set fields (lower key) value'))))
            else parse_fields_loop field_text (index + 1) fields)
      else Inr fields)"
  by pat_completeness auto
termination
proof (relation "measure (\<lambda>(field_text, index, fields). length field_text - index)", goal_cases)
  case 1
  show ?case by simp
next
  case (2 field_text index fields x2 x xa x2a x2b xa2 y x2c)
  from 2 have "index + 1 \<le> x2a"
    by (auto dest: skip_whitespace_index)
  moreover from 2 have "x2a \<le> y"
    by (auto simp: extract_value_def dest: extract_value_loop_index)
  ultimately show ?case
    using 2 by simp
next
  case (3 field_text index fields x2)
  then show ?case by simp
qed

declare parse_fields_loop.simps [simp del]

definition parse_fields :: "string \<Rightarrow> error + fields" where
  "parse_fields field_text = parse_fields_loop field_text 0 []"

section \<open>The entry parser\<close>

text \<open>An entry is the dictionary \<open>{"type": entry_type, "fields": fields}\<close> that
  \<open>process_bib_entry\<close> builds (the record field of the key \<open>"fields"\<close> is \<open>fields'\<close>);
  the collection is an \<open>OrderedDict\<close> from ids to entries.\<close>

record entry =
  type :: string
  fields' :: fields

type_synonym entries = "(string \<times> entry) list"

definition process_bib_entry :: "string \<Rightarrow> entries \<Rightarrow> error + entries" where
  "process_bib_entry entry_text entries =
     (case split NL entry_text of
        [] \<Rightarrow> Inl IndexError
      | line0 # lines1 \<Rightarrow>
         (let header = strip line0 in
          if CHR ''{'' \<notin> set header then Inr entries
          else
            (case split1 (CHR ''{'') header of
               [entry_type0, entry_id0] \<Rightarrow>
                 (let entry_type = lower (strip (drop 1 entry_type0));
                      entry_id = rstrip (CHR '','') (strip entry_id0);
                      field_text = strip (join [NL] lines1)
                  in case parse_fields field_text of
                       Inl e \<Rightarrow> Inl e
                     | Inr field_dict \<Rightarrow>
                        (let fields = od_update [] field_dict in
                         if od_in entry_id entries then Inl (DuplicateEntry entry_id)
                         else Inr (od_set entries entry_id \<lparr>type = entry_type, fields' = fields\<rparr>)))
             | _ \<Rightarrow> Inl ValueError)))"

text \<open>
  \<open>read_bibtex_entries\<close>, on the text of the file. \<open>scan_entry\<close> is the inner loop, entered
  at an \<open>@\<close> with \<open>brace_count = 0\<close>; it returns the index it stopped at (the closing brace
  after a \<open>break\<close>, the length of the text otherwise) and the collection. \<open>read_loop\<close> is
  the outer loop.
\<close>

function scan_entry :: "string \<Rightarrow> nat \<Rightarrow> nat \<Rightarrow> int \<Rightarrow> entries \<Rightarrow> error + (nat \<times> entries)" where
  "scan_entry content entry_start index brace_count entries =
     (if index < length content then
        (case char_at content index of
           Inl e \<Rightarrow> Inl e
         | Inr ch \<Rightarrow>
            if ch = CHR ''{'' then
              scan_entry content entry_start (index + 1) (brace_count + 1) entries
            else if ch = CHR ''}'' then
              (if brace_count - 1 = 0 then
                 (case process_bib_entry (slice content entry_start (index + 1)) entries of
                    Inl e \<Rightarrow> Inl e
                  | Inr entries' \<Rightarrow> Inr (index, entries'))
               else scan_entry content entry_start (index + 1) (brace_count - 1) entries)
            else scan_entry content entry_start (index + 1) brace_count entries)
      else Inr (index, entries))"
  by pat_completeness auto
termination
  by (relation "measure (\<lambda>(content, entry_start, index, brace_count, entries). length content - index)") auto

declare scan_entry.simps [simp del]

lemma scan_entry_index:
  "scan_entry content entry_start index brace_count entries = Inr (j, es) \<Longrightarrow> index \<le> j"
proof (induction content entry_start index brace_count entries rule: scan_entry.induct)
  case (1 content entry_start index brace_count entries)
  show ?case
  proof (cases "index < length content")
    case True
    then have c: "char_at content index = Inr (content ! index)"
      by (simp add: char_at_def)
    from "1.prems" "1.IH" True c show ?thesis
      by (subst (asm) scan_entry.simps) (auto split: if_splits sum.splits)
  next
    case False
    with "1.prems" show ?thesis
      by (subst (asm) scan_entry.simps) simp
  qed
qed

function read_loop :: "string \<Rightarrow> nat \<Rightarrow> entries \<Rightarrow> error + entries" where
  "read_loop content index entries =
     (if index < length content then
        (case char_at content index of
           Inl e \<Rightarrow> Inl e
         | Inr ch \<Rightarrow>
            if ch = CHR ''@'' then
              (case scan_entry content index index 0 entries of
                 Inl e \<Rightarrow> Inl e
               | Inr (index', entries') \<Rightarrow> read_loop content (index' + 1) entries')
            else read_loop content (index + 1) entries)
      else Inr entries)"
  by pat_completeness auto
termination
  by (relation "measure (\<lambda>(content, index, entries). length content - index)")
     (auto dest: scan_entry_index)

declare read_loop.simps [simp del]

definition read_bibtex_entries :: "string \<Rightarrow> error + entries" where
  "read_bibtex_entries content = read_loop content 0 []"

section \<open>The serializer\<close>


section \<open>The entry transformer\<close>

text \<open>The \<open>for\<close> loops of \<open>remove_dummy_fields\<close>: \<open>if field in bibfields: del bibfields[field]\<close>.\<close>

definition remove_fields :: "string list \<Rightarrow> fields \<Rightarrow> fields" where
  "remove_fields names bibfields =
     foldl (\<lambda>fs field. if od_in field fs then od_del field fs else fs) bibfields names"

definition remove_dummy_fields :: "entry \<Rightarrow> entry" where
  "remove_dummy_fields entry =
     (let bibtype = type entry;
          bibfields = remove_fields [''timestamp'', ''abstract'', ''keywords'', ''owner''] (fields' entry);
          bibfields' = (if bibtype = ''article'' then remove_fields [''issn'', ''url''] bibfields
                        else bibfields)
      in entry\<lparr>fields' := bibfields'\<rparr>)"

text \<open>
  The bibliographic service is outside the program: \<open>works cr query_title limit\<close> is the list
  \<open>result["message"]["items"]\<close> it answers, an item being a dictionary that may have the keys
  \<open>"title"\<close> (a list of strings) and \<open>"DOI"\<close>; \<open>queries\<close> records the requests made, in order.
  Python's \<open>None\<close> is \<open>None\<close>.
\<close>

record item =
  title :: "string list option"
  DOI :: "string option"

record crossref =
  works :: "string \<Rightarrow> nat \<Rightarrow> item list"
  queries :: "(string \<times> nat) list"

definition cr_works :: "crossref \<Rightarrow> string \<Rightarrow> nat \<Rightarrow> item list \<times> crossref" where
  "cr_works cr query_title limit =
     (works cr query_title limit, cr\<lparr>queries := queries cr @ [(query_title, limit)]\<rparr>)"

definition get_doi :: "crossref \<Rightarrow> string \<Rightarrow> string option \<times> crossref" where
  "get_doi cr article_title =
     (let (items, cr') = cr_works cr article_title 1 in
      (case items of
         [] \<Rightarrow> Some ''DOI not found''
       | it # _ \<Rightarrow> (case DOI it of None \<Rightarrow> Some ''DOI not found'' | Some d \<Rightarrow> Some d),
       cr'))"

fun exact_loop :: "string \<Rightarrow> item list \<Rightarrow> error + string option" where
  "exact_loop article_title [] = Inr None"
| "exact_loop article_title (it # items) =
     (case title it of
        None \<Rightarrow> exact_loop article_title items
      | Some ts \<Rightarrow>
         (case ts of
            [] \<Rightarrow> Inl IndexError
          | t # _ \<Rightarrow>
             if lower (strip t) = lower (strip article_title) then Inr (DOI it)
             else exact_loop article_title items))"

definition get_exact_doi :: "crossref \<Rightarrow> string \<Rightarrow> (error + string option) \<times> crossref" where
  "get_exact_doi cr article_title =
     (let (items, cr') = cr_works cr article_title 10 in (exact_loop article_title items, cr'))"

text \<open>\<open>d[k]\<close> on a dictionary: KeyError when the key is absent.\<close>

definition od_get :: "(string \<times> 'v) list \<Rightarrow> string \<Rightarrow> error + 'v" where
  "od_get d k = (case map_of d k of None \<Rightarrow> Inl (KeyError k) | Some v \<Rightarrow> Inr v)"

text \<open>The keys of the entry dictionary itself, which \<open>"doi" in entry\<close> searches.\<close>

definition entry_keys :: "entry \<Rightarrow> string list" where
  "entry_keys entry = [''type'', ''fields'']"

text \<open>\<open>update_DOI\<close> returns the entry (or the exception raised) and the state of the
  service, which keeps its record of requests also when an exception follows.\<close>

definition update_DOI :: "crossref \<Rightarrow> entry \<Rightarrow> (error + entry) \<times> crossref" where
  "update_DOI cr entry =
     (let bibtype = type entry; bibfields = fields' entry in
      if ''doi'' \<notin> set (entry_keys entry) then
        (case od_get bibfields ''title'' of
           Inl e \<Rightarrow> (Inl e, cr)
         | Inr article_name \<Rightarrow>
            if bibtype = ''article'' then
              (case get_doi cr article_name of
                 (Some doi, cr') \<Rightarrow> (Inr (entry\<lparr>fields' := od_set bibfields ''doi'' doi\<rparr>), cr')
               | (None, cr') \<Rightarrow> (Inr entry, cr'))
            else
              (case get_exact_doi cr article_name of
                 (Inl e, cr') \<Rightarrow> (Inl e, cr')
               | (Inr (Some doi), cr') \<Rightarrow> (Inr (entry\<lparr>fields' := od_set bibfields ''doi'' doi\<rparr>), cr')
               | (Inr None, cr') \<Rightarrow> (Inr entry, cr')))
      else (Inr entry, cr))"

section \<open>Notions used in the statements\<close>

text \<open>
  The description of \<open>abbreviate_name\<close> token by token. \<open>abbreviate_token f\<close> maps a token
  of uppercase letters to its letters, each followed by a period, any other token of
  letters to \<open>f\<close> of its first letter and a period, and leaves every other token as it is;
  \<open>abbreviate_described f\<close> inserts a space after every period, splits at whitespace, maps
  the tokens and joins the non-empty results with single spaces. With \<open>f\<close> the identity
  this is the rule that keeps the first letter; with \<open>f = upper_c\<close> the first letter is
  converted to upper case.
\<close>

definition abbreviate_token :: "(char \<Rightarrow> char) \<Rightarrow> string \<Rightarrow> string list" where
  "abbreviate_token f tok =
     (if tok \<noteq> [] \<and> list_all isupper_c tok then map (\<lambda>c. [c, CHR ''.'']) tok
      else if tok \<noteq> [] \<and> list_all isalpha_c tok then [[f (hd tok), CHR ''.'']]
      else [tok])"


text \<open>Collapsing every run of two or more hyphens to one hyphen.\<close>

fun collapse_hyphen_runs :: "string \<Rightarrow> string" where
  "collapse_hyphen_runs (c # d # cs) =
     (if c = CHR ''-'' \<and> d = CHR ''-'' then collapse_hyphen_runs (d # cs)
      else c # collapse_hyphen_runs (d # cs))"
| "collapse_hyphen_runs cs = cs"

text \<open>
  \<open>balanced_from d s\<close>: read from brace depth \<open>d\<close>, the string \<open>s\<close> never closes a brace that
  is not open and ends at depth 0. \<open>plain s\<close>: no brace, double quote or comma in \<open>s\<close>.
  \<open>quoted_body s\<close>: no brace and no double quote in \<open>s\<close>.
\<close>

fun balanced_from :: "int \<Rightarrow> string \<Rightarrow> bool" where
  "balanced_from d [] = (d = 0)"
| "balanced_from d (c # cs) =
     (if c = CHR ''{'' then balanced_from (d + 1) cs
      else if c = CHR ''}'' then 1 \<le> d \<and> balanced_from (d - 1) cs
      else balanced_from d cs)"

definition balanced :: "string \<Rightarrow> bool" where
  "balanced s = balanced_from 0 s"

definition plain :: "string \<Rightarrow> bool" where
  "plain s = list_all (\<lambda>c. c \<noteq> CHR ''{'' \<and> c \<noteq> CHR ''}'' \<and> c \<noteq> DQ \<and> c \<noteq> CHR '','') s"

definition quoted_body :: "string \<Rightarrow> bool" where
  "quoted_body s = list_all (\<lambda>c. c \<noteq> CHR ''{'' \<and> c \<noteq> CHR ''}'' \<and> c \<noteq> DQ) s"

text \<open>The quote toggle that is flipped on each unescaped double quote only, one that no
  backslash precedes: its state at \<open>index\<close> for a scan started at \<open>start\<close>.\<close>

definition unescaped_toggle :: "string \<Rightarrow> nat \<Rightarrow> nat \<Rightarrow> bool" where
  "unescaped_toggle s start index =
     odd (length (filter (\<lambda>i. s ! i = DQ \<and> \<not> (start < i \<and> s ! (i - 1) = CHR 0x5C)) [start..<index]))"

text \<open>
  The record spans that \<open>read_bibtex_entries\<close> hands to \<open>process_bib_entry\<close>, as a list:
  \<open>span_end\<close> is the inner loop of the scan without the processing, \<open>record_spans_from\<close>
  the outer loop, and \<open>process_all\<close> processes a list of spans in order, stopping at the
  first error.
\<close>

function span_end :: "string \<Rightarrow> nat \<Rightarrow> int \<Rightarrow> nat option" where
  "span_end content index brace_count =
     (if index < length content then
        (if content ! index = CHR ''{'' then span_end content (index + 1) (brace_count + 1)
         else if content ! index = CHR ''}'' then
           (if brace_count - 1 = 0 then Some index
            else span_end content (index + 1) (brace_count - 1))
         else span_end content (index + 1) brace_count)
      else None)"
  by pat_completeness auto
termination
  by (relation "measure (\<lambda>(content, index, brace_count). length content - index)") auto

declare span_end.simps [simp del]

lemma span_end_index: "span_end content index brace_count = Some j \<Longrightarrow> index \<le> j \<and> j < length content"
proof (induction content index brace_count rule: span_end.induct)
  case (1 content index brace_count)
  from "1.prems" "1.IH" show ?case
    by (subst (asm) span_end.simps) (auto split: if_splits)
qed

function record_spans_from :: "string \<Rightarrow> nat \<Rightarrow> string list" where
  "record_spans_from content index =
     (if index < length content then
        (if content ! index = CHR ''@'' then
           (case span_end content index 0 of
              None \<Rightarrow> []
            | Some j \<Rightarrow> slice content index (j + 1) # record_spans_from content (j + 1))
         else record_spans_from content (index + 1))
      else [])"
  by pat_completeness auto
termination
  by (relation "measure (\<lambda>(content, index). length content - index)")
     (auto dest: span_end_index)

declare record_spans_from.simps [simp del]

definition record_spans :: "string \<Rightarrow> string list" where
  "record_spans content = record_spans_from content 0"

fun process_all :: "string list \<Rightarrow> entries \<Rightarrow> error + entries" where
  "process_all [] entries = Inr entries"
| "process_all (entry_text # entry_texts) entries =
     (case process_bib_entry entry_text entries of
        Inl e \<Rightarrow> Inl e
      | Inr entries' \<Rightarrow> process_all entry_texts entries')"

text \<open>
  \<open>parse_entry\<close> is the id and the entry that \<open>process_bib_entry\<close> reads from a record
  text, taken from its result on the empty collection (\<open>None\<close> for a record whose header
  has no brace, which is skipped); \<open>records\<close> are the parsed records of a document in
  order, \<open>record_ids\<close> their ids.
\<close>

definition parse_entry :: "string \<Rightarrow> (string \<times> entry) option" where
  "parse_entry entry_text =
     (case process_bib_entry entry_text [] of
        Inr [(k, e)] \<Rightarrow> Some (k, e)
      | _ \<Rightarrow> None)"

definition records :: "string \<Rightarrow> (string \<times> entry) list" where
  "records content = List.map_filter parse_entry (record_spans content)"

definition record_ids :: "string \<Rightarrow> string list" where
  "record_ids content = map fst (records content)"





section \<open>Field removal\<close>

lemma remove_fields_filter:
  "remove_fields names bibfields = filter (\<lambda>kv. fst kv \<notin> set names) bibfields"
proof (induction names arbitrary: bibfields)
  case Nil
  show ?case by (simp add: remove_fields_def)
next
  case (Cons n names)
  have step: "(if od_in n bibfields then od_del n bibfields else bibfields) = filter (\<lambda>kv. fst kv \<noteq> n) bibfields"
  proof (cases "od_in n bibfields")
    case True
    then show ?thesis by (simp add: od_del_def)
  next
    case False
    then have "\<forall>kv \<in> set bibfields. fst kv \<noteq> n"
      by (auto simp: od_in_def)
    then have "filter (\<lambda>kv. fst kv \<noteq> n) bibfields = bibfields"
      by (simp add: filter_id_conv)
    with False show ?thesis by simp
  qed
  have "remove_fields (n # names) bibfields = remove_fields names (filter (\<lambda>kv. fst kv \<noteq> n) bibfields)"
    unfolding remove_fields_def foldl_Cons step ..
  also have "\<dots> = filter (\<lambda>kv. fst kv \<notin> set names) (filter (\<lambda>kv. fst kv \<noteq> n) bibfields)"
    by (rule Cons.IH)
  also have "\<dots> = filter (\<lambda>kv. fst kv \<notin> set (n # names)) bibfields"
    by (auto intro: filter_cong)
  finally show ?case .
qed

text \<open>
  C8. \<open>remove_dummy_fields\<close> keeps the type of the entry, and its fields afterwards are
  the fields before, in the same order and with the same values, without the pairs whose
  key is \<open>timestamp\<close>, \<open>abstract\<close>, \<open>keywords\<close> or \<open>owner\<close>, or \<open>issn\<close> or \<open>url\<close> when the
  type is \<open>article\<close>.
\<close>

theorem remove_dummy_fields_frame:
  "type (remove_dummy_fields entry) = type entry \<and>
   fields' (remove_dummy_fields entry) =
     filter (\<lambda>kv. fst kv \<notin> set ([''timestamp'', ''abstract'', ''keywords'', ''owner''] @
                                   (if type entry = ''article'' then [''issn'', ''url''] else [])))
       (fields' entry)"
proof -
  have "filter (\<lambda>kv. fst kv \<notin> set [''issn'', ''url''])
          (filter (\<lambda>kv. fst kv \<notin> set [''timestamp'', ''abstract'', ''keywords'', ''owner'']) fs)
        = filter (\<lambda>kv. fst kv \<notin> set ([''timestamp'', ''abstract'', ''keywords'', ''owner''] @ [''issn'', ''url''])) fs"
    for fs :: fields
    by (auto intro: filter_cong)
  then show ?thesis
    by (simp add: remove_dummy_fields_def Let_def remove_fields_filter del: set_simps set_append)
qed

theorem remove_dummy_fields_frame_witness:
  "type (remove_dummy_fields \<lparr>type = ''article'',
       fields' = [(''timestamp'', ''1''), (''issn'', ''2''), (''url'', ''3''), (''title'', ''4'')]\<rparr>) = ''article'' \<and>
   fields' (remove_dummy_fields \<lparr>type = ''article'',
       fields' = [(''timestamp'', ''1''), (''issn'', ''2''), (''url'', ''3''), (''title'', ''4'')]\<rparr>) = [(''title'', ''4'')]"
  using remove_dummy_fields_frame [of "\<lparr>type = ''article'',
       fields' = [(''timestamp'', ''1''), (''issn'', ''2''), (''url'', ''3''), (''title'', ''4'')]\<rparr>"]
  by simp

section \<open>DOI resolution\<close>

lemma get_doi_queries:
  "snd (get_doi cr t) = cr\<lparr>queries := queries cr @ [(t, 1)]\<rparr>"
  by (simp add: get_doi_def cr_works_def)

lemma get_exact_doi_queries:
  "snd (get_exact_doi cr t) = cr\<lparr>queries := queries cr @ [(t, 10)]\<rparr>"
  by (simp add: get_exact_doi_def cr_works_def)

text \<open>
  C7. The presence check of \<open>update_DOI\<close> looks for \<open>"doi"\<close> among the keys of the entry
  dictionary, which are \<open>"type"\<close> and \<open>"fields"\<close>, so it holds for every entry, whatever its
  fields contain. The guarded branch therefore runs for every entry: it reads the title
  (KeyError when the entry has none, before any request) and sends one request to the
  service, with limit 1 for an article and limit 10 otherwise, also when the fields
  already have a \<open>doi\<close>.
\<close>

theorem update_DOI_presence_check_always_true:
  "''doi'' \<notin> set (entry_keys entry) \<and>
   (case map_of (fields' entry) ''title'' of
      None \<Rightarrow> update_DOI cr entry = (Inl (KeyError ''title''), cr)
    | Some t \<Rightarrow>
        snd (update_DOI cr entry) =
          cr\<lparr>queries := queries cr @ [(t, if type entry = ''article'' then 1 else 10)]\<rparr>)"
proof (cases "map_of (fields' entry) ''title''")
  case None
  then show ?thesis
    by (simp add: update_DOI_def entry_keys_def od_get_def)
next
  case (Some t)
  show ?thesis
  proof (cases "type entry = ''article''")
    case True
    obtain d c where g: "get_doi cr t = (d, c)"
      by (cases "get_doi cr t")
    with get_doi_queries [of cr t] have "c = cr\<lparr>queries := queries cr @ [(t, 1)]\<rparr>"
      by simp
    with Some True g show ?thesis
      by (simp add: update_DOI_def entry_keys_def od_get_def split: option.splits)
  next
    case False
    obtain d c where g: "get_exact_doi cr t = (d, c)"
      by (cases "get_exact_doi cr t")
    with get_exact_doi_queries [of cr t] have "c = cr\<lparr>queries := queries cr @ [(t, 10)]\<rparr>"
      by simp
    with Some False g show ?thesis
      by (simp add: update_DOI_def entry_keys_def od_get_def split: option.splits sum.splits)
  qed
qed

theorem update_DOI_presence_check_always_true_witness:
  "snd (update_DOI \<lparr>works = (\<lambda>t n. []), queries = []\<rparr>
          \<lparr>type = ''book'', fields' = [(''title'', ''T''), (''doi'', ''10.1/x'')]\<rparr>) =
     \<lparr>works = (\<lambda>t n. []), queries = [(''T'', 10)]\<rparr>"
  using update_DOI_presence_check_always_true
    [of "\<lparr>type = ''book'', fields' = [(''title'', ''T''), (''doi'', ''10.1/x'')]\<rparr>"
        "\<lparr>works = (\<lambda>t n. []), queries = []\<rparr>"]
  by simp

text \<open>
  C3. An article whose title the service answers with no item: \<open>get_doi\<close> returns the string
  \<open>"DOI not found"\<close>, which is not \<open>None\<close>, and \<open>update_DOI\<close> stores it under \<open>"doi"\<close>. The
  other path, \<open>get_exact_doi\<close>, returns \<open>None\<close> on no match and leaves the entry as it was.
\<close>

theorem update_DOI_article_no_match_stores_sentinel:
  "fst (update_DOI \<lparr>works = (\<lambda>t n. []), queries = []\<rparr>
          \<lparr>type = ''article'', fields' = [(''title'', ''T'')]\<rparr>) =
     Inr \<lparr>type = ''article'', fields' = [(''title'', ''T''), (''doi'', ''DOI not found'')]\<rparr> \<and>
   fst (update_DOI \<lparr>works = (\<lambda>t n. []), queries = []\<rparr>
          \<lparr>type = ''book'', fields' = [(''title'', ''T'')]\<rparr>) =
     Inr \<lparr>type = ''book'', fields' = [(''title'', ''T'')]\<rparr>"
  by (simp add: update_DOI_def entry_keys_def od_get_def get_doi_def get_exact_doi_def cr_works_def)

section \<open>Name abbreviation\<close>


lemma is_all_uppercase_iff: "is_all_uppercase s = (s \<noteq> [] \<and> list_all isupper_c s)"
proof -
  have d: "isupper_c c \<Longrightarrow> \<not> islower_c c" for c
    by (simp add: isupper_c_def islower_c_def Let_def)
  show ?thesis
  proof (cases s)
    case Nil
    then show ?thesis
      by (simp add: is_all_uppercase_def isalpha_def)
  next
    case (Cons c cs)
    then show ?thesis
      using d by (auto simp: is_all_uppercase_def isalpha_def isupper_def isalpha_c_def
          list_all_iff list_ex_iff)
  qed
qed

lemma join_Cons: "join sep (x # xs) = x @ (if xs = [] then [] else sep @ join sep xs)"
  by (cases xs) simp_all

lemma join_join: "A \<noteq> [] \<Longrightarrow> join sep (join sep A # B) = join sep (A @ B)"
proof (induction A)
  case Nil
  then show ?case by simp
next
  case (Cons a A)
  show ?case
  proof (cases "A = []")
    case True
    then show ?thesis by simp
  next
    case False
    with Cons.IH have ih: "join sep (join sep A # B) = join sep (A @ B)"
      by simp
    have "join sep (join sep (a # A) # B) = a @ sep @ join sep (join sep A # B)"
      using False by (simp add: join_Cons)
    also have "\<dots> = a @ sep @ join sep (A @ B)"
      by (simp only: ih)
    also have "\<dots> = join sep ((a # A) @ B)"
      using False by (simp add: join_Cons [of sep a "A @ B"])
    finally show ?thesis .
  qed
qed

lemma join_nonempty: "A \<noteq> [] \<Longrightarrow> [] \<notin> set A \<Longrightarrow> join sep A \<noteq> []"
  by (cases A) (auto simp: join_Cons)

lemma join_filter_join:
  "join sep (filter (\<lambda>s. s \<noteq> []) (join sep (filter (\<lambda>s. s \<noteq> []) A) # B)) =
   join sep (filter (\<lambda>s. s \<noteq> []) (A @ B))"
proof (cases "filter (\<lambda>s. s \<noteq> []) A = []")
  case True
  then show ?thesis by simp
next
  case False
  then have "join sep (filter (\<lambda>s. s \<noteq> []) A) \<noteq> []"
    by (intro join_nonempty) auto
  with False show ?thesis
    by (simp add: join_join)
qed

lemma abbreviate_part_eq:
  "abbreviate_part joinname part =
     Inr (join '' '' (filter (\<lambda>s. s \<noteq> []) (joinname # abbreviate_token upper_c part)))"
proof (cases "is_all_uppercase part")
  case True
  then show ?thesis
    by (simp add: abbreviate_part_def abbreviate_token_def is_all_uppercase_iff)
next
  case False
  show ?thesis
  proof (cases "isalpha part")
    case True
    then obtain c cs where p: "part = c # cs"
      by (cases part) (auto simp: isalpha_def)
    from False p have nu: "\<not> (isupper_c c \<and> list_all isupper_c cs)"
      by (simp add: is_all_uppercase_iff)
    from True p have al: "isalpha_c c \<and> list_all isalpha_c cs"
      by (simp add: isalpha_def)
    from True False p nu al show ?thesis
      by (auto simp: abbreviate_part_def abbreviate_token_def isalpha_def char_at_def upper_def)
  next
    case n: False
    with False show ?thesis
      by (auto simp: abbreviate_part_def abbreviate_token_def is_all_uppercase_iff isalpha_def)
  qed
qed

lemma abbreviate_loop_eq:
  "abbreviate_loop joinname parts =
     Inr (join '' '' (filter (\<lambda>s. s \<noteq> [])
            (joinname # concat (map (abbreviate_token upper_c) parts))))"
proof (induction parts arbitrary: joinname)
  case Nil
  show ?case by (cases "joinname = []") simp_all
next
  case (Cons p parts)
  have "join '' '' (filter (\<lambda>s. s \<noteq> [])
          (join '' '' (filter (\<lambda>s. s \<noteq> []) (joinname # abbreviate_token upper_c p))
             # concat (map (abbreviate_token upper_c) parts))) =
        join '' '' (filter (\<lambda>s. s \<noteq> [])
          ((joinname # abbreviate_token upper_c p) @ concat (map (abbreviate_token upper_c) parts)))"
    by (rule join_filter_join)
  then show ?case
    by (simp add: abbreviate_part_eq Cons.IH)
qed




section \<open>The pages rule\<close>

lemma replace_no_head: "old \<noteq> [] \<Longrightarrow> hd old \<notin> set s \<Longrightarrow> replace old new s = s"
proof (induction s)
  case Nil
  show ?case by (subst replace.simps) simp
next
  case (Cons c s)
  from Cons.prems have "take (length old) (c # s) \<noteq> old"
    by (cases old) auto
  with Cons show ?case
    by (subst replace.simps) simp
qed

lemma replace_run:
  assumes "c \<notin> set a" and "c \<notin> set b" and "0 < n"
  shows "replace (replicate n c) new (a @ replicate n c @ b) = a @ new @ b"
  using assms
proof (induction a)
  case Nil
  then have "replace (replicate n c) new b = b"
    by (intro replace_no_head) auto
  with Nil show ?case
    by (subst replace.simps) auto
next
  case (Cons x a)
  from Cons.prems have "take n (x # a @ replicate n c @ b) \<noteq> replicate n c"
    by (cases n) auto
  with Cons show ?case
    by (subst replace.simps) simp
qed

lemma replace_absent:
  assumes "old \<noteq> []" and "\<forall>x y. s \<noteq> x @ old @ y"
  shows "replace old new s = s"
  using assms
proof (induction s)
  case Nil
  show ?case by (subst replace.simps) simp
next
  case (Cons c s)
  have "take (length old) (c # s) \<noteq> old"
  proof
    assume "take (length old) (c # s) = old"
    then have "c # s = [] @ old @ drop (length old) (c # s)"
      by (metis append_Nil append_take_drop_id)
    with Cons.prems show False by blast
  qed
  moreover have "\<forall>x y. s \<noteq> x @ old @ y"
  proof (intro allI notI)
    fix x y assume "s = x @ old @ y"
    then have "c # s = (c # x) @ old @ y" by simp
    with Cons.prems show False by blast
  qed
  ultimately show ?case
    using Cons by (subst replace.simps) simp
qed

lemma count_append: "count c (xs @ ys) = count c xs + count c ys"
  by (simp add: count_def)

lemma count_replicate: "count c (replicate n c) = n"
  by (simp add: count_def)

lemma count_zero: "(count c xs = 0) = (c \<notin> set xs)"
  by (auto simp: count_def filter_empty_conv)

lemma nth_run:
  assumes "h \<notin> set x" and "h \<notin> set y" and "i < length (x @ replicate n h @ y)"
  shows "((x @ replicate n h @ y) ! i = h) = (length x \<le> i \<and> i < length x + n)"
proof (cases "i < length x")
  case True
  with assms(1) show ?thesis
    by (auto simp: nth_append dest: nth_mem)
next
  case False
  show ?thesis
  proof (cases "i < length x + n")
    case True
    with False have "i - length x < n"
      by simp
    with True False show ?thesis
      by (simp add: nth_append)
  next
    case f: False
    with False assms(3) have "i - length x - n < length y"
      by simp
    then have "y ! (i - length x - n) \<in> set y"
      by (rule nth_mem)
    with assms(2) have "y ! (i - length x - n) \<noteq> h"
      by auto
    with False f show ?thesis
      by (simp add: nth_append)
  qed
qed

lemma separated_no_run:
  assumes v: "v = a @ [h] @ m @ [h] @ b" and m: "m \<noteq> []" "h \<notin> set m"
  shows "\<forall>x y. v \<noteq> x @ replicate (count h v) h @ y"
proof (intro allI notI)
  fix x y
  assume e: "v = x @ replicate (count h v) h @ y"
  let ?n = "count h v"
  from e have "count h v = count h x + ?n + count h y"
    by (metis count_append count_replicate add.assoc)
  then have hx: "h \<notin> set x" and hy: "h \<notin> set y"
    by (simp_all add: count_zero [symmetric])
  have len: "length a + 1 + length m < length v"
    by (simp add: v)
  have p1: "v ! length a = h"
    by (simp add: v nth_append)
  have p2: "v ! (length a + 1 + length m) = h"
    by (simp add: v nth_append)
  have p3: "v ! (length a + 1) \<noteq> h"
  proof -
    have "v ! (length a + 1) = m ! 0"
      using m(1) by (simp add: v nth_append)
    moreover have "m ! 0 \<in> set m"
      using m(1) by (intro nth_mem) simp
    ultimately show ?thesis
      using m(2) by auto
  qed
  have r: "i < length v \<Longrightarrow> (v ! i = h) = (length x \<le> i \<and> i < length x + ?n)" for i
    using nth_run [OF hx hy, of i ?n] e by simp
  from r [of "length a"] p1 len have "length x \<le> length a"
    by simp
  moreover from r [of "length a + 1 + length m"] p2 len have "length a + 1 + length m < length x + ?n"
    by simp
  ultimately have "v ! (length a + 1) = h"
    using r [of "length a + 1"] len by simp
  with p3 show False by simp
qed

text \<open>
  C4 (amended). The pages rule counts the hyphens of the value and replaces a run of that
  many hyphens by one hyphen. So a value with at most one hyphen is unchanged; a value
  whose hyphens, two or more, form one run has that run collapsed to a single hyphen; and
  a value in which two hyphens are separated by other characters is unchanged, whatever
  runs it has. The field parser turns \<open>123--145\<close> into \<open>123-145\<close> and leaves \<open>123-145\<close>.
\<close>

theorem pages_rule:
  "(count (CHR ''-'') v \<le> 1 \<longrightarrow> normalize_field ''pages'' v = Inr v) \<and>
   (CHR ''-'' \<notin> set a \<and> CHR ''-'' \<notin> set b \<and> 2 \<le> n \<longrightarrow>
      normalize_field ''pages'' (a @ replicate n (CHR ''-'') @ b) = Inr (a @ ''-'' @ b)) \<and>
   (m \<noteq> [] \<and> CHR ''-'' \<notin> set m \<longrightarrow>
      normalize_field ''pages'' (a @ ''-'' @ m @ ''-'' @ b) = Inr (a @ ''-'' @ m @ ''-'' @ b)) \<and>
   parse_fields ''pages = {123--145}'' = Inr [(''pages'', ''123-145'')] \<and>
   parse_fields ''pages = {123-145}'' = Inr [(''pages'', ''123-145'')]"
proof (intro conjI impI)
  assume "count (CHR ''-'') v \<le> 1"
  then show "normalize_field ''pages'' v = Inr v"
    by (simp add: normalize_field_def Let_def)
next
  assume h: "CHR ''-'' \<notin> set a \<and> CHR ''-'' \<notin> set b \<and> 2 \<le> n"
  then have c: "count (CHR ''-'') (a @ replicate n (CHR ''-'') @ b) = n"
    by (simp add: count_append count_replicate count_zero)
  from h have "replace (replicate n (CHR ''-'')) ''-'' (a @ replicate n (CHR ''-'') @ b) = a @ ''-'' @ b"
    by (intro replace_run) auto
  with h c show "normalize_field ''pages'' (a @ replicate n (CHR ''-'') @ b) = Inr (a @ ''-'' @ b)"
    by (simp add: normalize_field_def Let_def)
next
  assume h: "m \<noteq> [] \<and> CHR ''-'' \<notin> set m"
  let ?v = "a @ ''-'' @ m @ ''-'' @ b"
  from h have "\<forall>x y. ?v \<noteq> x @ replicate (count (CHR ''-'') ?v) (CHR ''-'') @ y"
    by (intro separated_no_run [of ?v a "CHR ''-''" m b]) auto
  moreover have "1 < count (CHR ''-'') ?v \<Longrightarrow> replicate (count (CHR ''-'') ?v) (CHR ''-'') \<noteq> []"
    by auto
  ultimately have "1 < count (CHR ''-'') ?v \<Longrightarrow>
      replace (replicate (count (CHR ''-'') ?v) (CHR ''-'')) ''-'' ?v = ?v"
    by (intro replace_absent) auto
  then show "normalize_field ''pages'' ?v = Inr ?v"
    by (simp add: normalize_field_def Let_def)
next
  show "parse_fields ''pages = {123--145}'' = Inr [(''pages'', ''123-145'')]"
    by code_simp
next
  show "parse_fields ''pages = {123-145}'' = Inr [(''pages'', ''123-145'')]"
    by code_simp
qed

theorem pages_rule_witness:
  "normalize_field ''pages'' ''123-145'' = Inr ''123-145'' \<and>
   normalize_field ''pages'' ''12---34'' = Inr ''12-34'' \<and>
   normalize_field ''pages'' ''1--2, 5--6'' = Inr ''1--2, 5--6''"
proof -
  have c: "count (CHR ''-'') ''123-145'' \<le> 1"
    by (simp add: count_def)
  have r: "''12---34'' = ''12'' @ replicate 3 (CHR ''-'') @ ''34''"
    by (simp add: numeral_3_eq_3)
  have s: "''1--2, 5--6'' = ''1-'' @ ''-'' @ ''2, 5'' @ ''-'' @ ''-6''"
    by simp
  from pages_rule [of "''123-145''" "''12''" "''34''" 3 "''2, 5''"] c
  have 1: "normalize_field ''pages'' ''123-145'' = Inr ''123-145''"
    and 2: "normalize_field ''pages'' (''12'' @ replicate 3 (CHR ''-'') @ ''34'') = Inr (''12'' @ ''-'' @ ''34'')"
    by simp_all
  from pages_rule [of "''123-145''" "''1-''" "''-6''" 3 "''2, 5''"]
  have 3: "normalize_field ''pages'' (''1-'' @ ''-'' @ ''2, 5'' @ ''-'' @ ''-6'') =
             Inr (''1-'' @ ''-'' @ ''2, 5'' @ ''-'' @ ''-6'')"
    by simp
  from 1 2 3 show ?thesis
    unfolding r s by simp
qed

text \<open>
  C4 as stated fails on a value with two ranges: each of its runs of two hyphens is
  shorter than the four hyphens counted, and the field parser stores the value as it is.
\<close>

theorem pages_two_ranges_counterexample:
  "parse_fields ''pages = {1--2, 5--6}'' = Inr [(''pages'', ''1--2, 5--6'')] \<and>
   collapse_hyphen_runs ''1--2, 5--6'' = ''1-2, 5-6''"
  by code_simp

section \<open>What the value extractor returns\<close>

lemma char_at_mid: "char_at (A @ c # R) (length A) = Inr c"
  by (simp add: char_at_def)

lemma extract_value_loop_step:
  "extract_value_loop (A @ c # R) (length A) lvl q w =
     (if c = CHR ''{'' then extract_value_loop (A @ c # R) (length A + 1) (lvl + 1) q (w @ [c])
      else if c = CHR ''}'' then
        (if lvl - 1 = 0 then Inr (strip_braces (w @ [c]), length A)
         else extract_value_loop (A @ c # R) (length A + 1) (lvl - 1) q (w @ [c]))
      else if c = DQ then extract_value_loop (A @ c # R) (length A + 1) lvl (\<not> q) (w @ [c])
      else if c = CHR '','' \<and> lvl = 0 \<and> \<not> q then Inr (w, length A)
      else extract_value_loop (A @ c # R) (length A + 1) lvl q (w @ [c]))"
  by (subst extract_value_loop.simps) (simp add: char_at_mid DQ_def)

lemma extract_value_loop_end:
  "extract_value_loop A (length A) lvl q w = Inr (w, length A)"
  by (subst extract_value_loop.simps) simp

lemma extract_value_loop_balanced:
  "balanced_from d v \<Longrightarrow> 0 \<le> d \<Longrightarrow>
   extract_value_loop (A @ v @ CHR ''}'' # R) (length A) (d + 1) q w =
     Inr (strip_braces (w @ v @ ''}''), length A + length v)"
proof (induction v arbitrary: A d q w)
  case Nil
  then show ?case
    using extract_value_loop_step [of A "CHR ''}''" R "d + 1" q w] by simp
next
  case (Cons c v)
  have s: "A @ (c # v) @ CHR ''}'' # R = (A @ [c]) @ v @ CHR ''}'' # R"
    by simp
  have l: "length A + 1 = length (A @ [c])"
    by simp
  show ?case
  proof (cases "c = CHR ''{''")
    case True
    with Cons.prems have "balanced_from (d + 1) v" "0 \<le> d + 1" by simp_all
    from Cons.IH [OF this, of "A @ [c]" q "w @ [c]"] True show ?thesis
      using extract_value_loop_step [of A c "v @ CHR ''}'' # R" "d + 1" q w]
      by (simp del: extract_value_loop_step)
  next
    case nb: False
    show ?thesis
    proof (cases "c = CHR ''}''")
      case True
      with Cons.prems have b: "balanced_from (d - 1) v" "0 \<le> d - 1" by simp_all
      from Cons.IH [OF b, of "A @ [c]" q "w @ [c]"] True b show ?thesis
        using extract_value_loop_step [of A c "v @ CHR ''}'' # R" "d + 1" q w]
        by simp
    next
      case False
      with nb Cons.prems have b: "balanced_from d v" "0 \<le> d" by simp_all
      from Cons.IH [OF b, of "A @ [c]" "\<not> q" "w @ [c]"] Cons.IH [OF b, of "A @ [c]" q "w @ [c]"] False nb b
      show ?thesis
        using extract_value_loop_step [of A c "v @ CHR ''}'' # R" "d + 1" q w]
        by (cases "c = DQ") simp_all
    qed
  qed
qed

lemma extract_value_loop_plain:
  "plain p \<Longrightarrow>
   extract_value_loop (A @ p @ R) (length A) lvl q w =
   extract_value_loop (A @ p @ R) (length A + length p) lvl q (w @ p)"
proof (induction p arbitrary: A w)
  case Nil
  show ?case by simp
next
  case (Cons c p)
  then have pc: "c \<noteq> CHR ''{''" "c \<noteq> CHR ''}''" "c \<noteq> DQ" "c \<noteq> CHR '',''" and pp: "plain p"
    by (simp_all add: plain_def)
  from Cons.IH [OF pp, of "A @ [c]" "w @ [c]"] pc show ?case
    using extract_value_loop_step [of A c "p @ R" lvl q w]
    by simp
qed

lemma extract_value_braced:
  assumes "plain p" and "balanced v"
  shows "extract_value (A @ p @ ''{'' @ v @ ''}'' @ R) (length A) =
           Inr (if p = [] then v else p @ ''{'' @ v @ ''}'', length A + length p + length v + 1)"
proof -
  let ?t = "A @ p @ ''{'' @ v @ ''}'' @ R"
  have "extract_value ?t (length A) = extract_value_loop ?t (length A + length p) 0 False p"
    using extract_value_loop_plain [OF assms(1), of A "''{'' @ v @ ''}'' @ R" 0 False "[]"]
    by (simp add: extract_value_def)
  also have "\<dots> = extract_value_loop ?t (length A + length p + 1) 1 False (p @ ''{'')"
    using extract_value_loop_step [of "A @ p" "CHR ''{''" "v @ ''}'' @ R" 0 False p]
    by simp
  also have "\<dots> = Inr (strip_braces ((p @ ''{'') @ v @ ''}''), length A + length p + 1 + length v)"
    using extract_value_loop_balanced [of 0 v "A @ p @ ''{''" R False "p @ ''{''"] assms(2)
    by (simp add: balanced_def)
  also have "strip_braces ((p @ ''{'') @ v @ ''}'') = (if p = [] then v else p @ ''{'' @ v @ ''}'')"
    using assms(1) by (cases p) (auto simp: strip_braces_def startswith_def endswith_def plain_def butlast_append)
  finally show ?thesis by simp
qed

lemma extract_value_loop_quoted:
  "quoted_body s \<Longrightarrow>
   extract_value_loop (A @ s @ R) (length A) 0 True w =
   extract_value_loop (A @ s @ R) (length A + length s) 0 True (w @ s)"
proof (induction s arbitrary: A w)
  case Nil
  show ?case by simp
next
  case (Cons c s)
  then have pc: "c \<noteq> CHR ''{''" "c \<noteq> CHR ''}''" "c \<noteq> DQ" and pp: "quoted_body s"
    by (simp_all add: quoted_body_def)
  from Cons.IH [OF pp, of "A @ [c]" "w @ [c]"] pc show ?case
    using extract_value_loop_step [of A c "s @ R" 0 True w]
    by simp
qed

lemma extract_value_quoted:
  assumes "quoted_body s"
  shows "extract_value (A @ [DQ] @ s @ [DQ] @ '','' @ R) (length A) =
           Inr ([DQ] @ s @ [DQ], length A + length s + 2)"
proof -
  let ?t = "A @ [DQ] @ s @ [DQ] @ '','' @ R"
  have "extract_value ?t (length A) = extract_value_loop ?t (length A + 1) 0 True [DQ]"
    using extract_value_loop_step [of A DQ "s @ [DQ] @ '','' @ R" 0 False "[]"]
    by (simp add: extract_value_def DQ_def)
  also have "\<dots> = extract_value_loop ?t (length A + 1 + length s) 0 True ([DQ] @ s)"
    using extract_value_loop_quoted [OF assms, of "A @ [DQ]" "[DQ] @ '','' @ R" "[DQ]"]
    by simp
  also have "\<dots> = extract_value_loop ?t (length A + 1 + length s + 1) 0 False ([DQ] @ s @ [DQ])"
    using extract_value_loop_step [of "A @ [DQ] @ s" DQ "'','' @ R" 0 True "[DQ] @ s"]
    by (simp add: DQ_def)
  also have "\<dots> = Inr ([DQ] @ s @ [DQ], length A + 1 + length s + 1)"
    using extract_value_loop_step [of "A @ [DQ] @ s @ [DQ]" "CHR '',''" R 0 False "[DQ] @ s @ [DQ]"]
    by (simp add: DQ_def)
  finally show ?thesis by simp
qed

text \<open>
  C6 (amended). \<open>extract_value\<close> stops at the closing brace that brings the brace depth
  back to 0 and returns the index of that brace; the text read is returned without its
  outer braces exactly when it starts with the opening brace (it ends with the closing
  one), and as it is when other characters come before the opening brace. The quote
  toggle is flipped on every double quote character, escaped or not, and while it is on
  a comma at brace depth 0 does not stop the scan: the scan of a quoted value with
  commas and no braces stops at the comma after the closing quote.
  \<open>{Nested {inner} value}\<close> yields \<open>Nested {inner} value\<close>, and the scan of
  \<open>"value, with comma"\<close> runs to the end of the text.
\<close>

theorem extract_value_stops:
  "(plain p \<and> balanced v \<longrightarrow>
      extract_value (A @ p @ ''{'' @ v @ ''}'' @ R) (length A) =
        Inr (if p = [] then v else p @ ''{'' @ v @ ''}'', length A + length p + length v + 1)) \<and>
   (quoted_body s \<longrightarrow>
      extract_value (A @ [DQ] @ s @ [DQ] @ '','' @ R) (length A) =
        Inr ([DQ] @ s @ [DQ], length A + length s + 2)) \<and>
   extract_value ''{Nested {inner} value}'' 0 = Inr (''Nested {inner} value'', 21) \<and>
   extract_value ([DQ] @ ''value, with comma'' @ [DQ]) 0 =
     Inr ([DQ] @ ''value, with comma'' @ [DQ], 19)"
proof (intro conjI impI)
  assume "plain p \<and> balanced v"
  then show "extract_value (A @ p @ ''{'' @ v @ ''}'' @ R) (length A) =
      Inr (if p = [] then v else p @ ''{'' @ v @ ''}'', length A + length p + length v + 1)"
    by (intro extract_value_braced) simp_all
next
  assume "quoted_body s"
  then show "extract_value (A @ [DQ] @ s @ [DQ] @ '','' @ R) (length A) =
      Inr ([DQ] @ s @ [DQ], length A + length s + 2)"
    by (rule extract_value_quoted)
next
  show "extract_value ''{Nested {inner} value}'' 0 = Inr (''Nested {inner} value'', 21)"
    by code_simp
next
  show "extract_value ([DQ] @ ''value, with comma'' @ [DQ]) 0 =
      Inr ([DQ] @ ''value, with comma'' @ [DQ], 19)"
    by code_simp
qed

theorem extract_value_stops_witness:
  "extract_value ''title = x{Nested {inner} value}, year'' 8 = Inr (''x{Nested {inner} value}'', 30) \<and>
   extract_value (''title = '' @ [DQ] @ ''a, b'' @ [DQ] @ '','' @ '', year'') 8 =
     Inr ([DQ] @ ''a, b'' @ [DQ], 14)"
proof -
  have h1: "plain ''x'' \<and> balanced ''Nested {inner} value''"
    by (simp add: plain_def balanced_def DQ_def)
  have h2: "quoted_body ''a, b''"
    by (simp add: quoted_body_def DQ_def)
  from extract_value_stops [of "''x''" "''Nested {inner} value''" "''title = ''" "'', year''" "''a, b''"] h1 h2
  show ?thesis
    by (simp add: eval_nat_numeral)
qed

text \<open>
  C6 as stated, with the toggle flipped on each unescaped double quote only. In the text
  \<open>"a\", b"\<close> the second double quote follows a backslash, so that toggle is still on at
  the comma of index 4, which is at brace depth 0; \<open>extract_value\<close> has flipped its toggle
  at both double quotes and stops at that comma.
\<close>

theorem extract_value_escaped_quote_counterexample:
  "unescaped_toggle ([DQ] @ ''a'' @ [CHR 0x5C] @ [DQ] @ '', b'' @ [DQ]) 0 4 \<and>
   char_at ([DQ] @ ''a'' @ [CHR 0x5C] @ [DQ] @ '', b'' @ [DQ]) 4 = Inr (CHR '','') \<and>
   extract_value ([DQ] @ ''a'' @ [CHR 0x5C] @ [DQ] @ '', b'' @ [DQ]) 0 =
     Inr ([DQ] @ ''a'' @ [CHR 0x5C] @ [DQ], 4)"
  by code_simp

section \<open>The scanners return\<close>

lemma extract_value_loop_total:
  "\<exists>v j. extract_value_loop t i l q w = Inr (v, j) \<and> i \<le> j \<and> j \<le> max i (length t)"
proof (induction t i l q w rule: extract_value_loop.induct)
  case (1 t i l q w)
  show ?case
  proof (cases "i < length t")
    case True
    then have c: "char_at t i = Inr (t ! i)"
      by (simp add: char_at_def)
    note ih = "1.IH" [OF True c]
    show ?thesis
    proof (cases "t ! i = CHR ''{''")
      case True
      from ih(1) [OF True] \<open>i < length t\<close> c True show ?thesis
        by (subst extract_value_loop.simps) (auto simp: max_def)
    next
      case nb: False
      show ?thesis
      proof (cases "t ! i = CHR ''}''")
        case True
        show ?thesis
        proof (cases "l - 1 = 0")
          case z: True
          with \<open>i < length t\<close> c True nb show ?thesis
            by (subst extract_value_loop.simps) simp
        next
          case False
          from ih(2) [OF nb True False] \<open>i < length t\<close> c True nb False show ?thesis
            by (subst extract_value_loop.simps) (auto simp: max_def)
        qed
      next
        case nc: False
        show ?thesis
        proof (cases "t ! i = CHR 0x22")
          case True
          from ih(3) [OF nb nc True] \<open>i < length t\<close> c True nb nc show ?thesis
            by (subst extract_value_loop.simps) (auto simp: max_def)
        next
          case nq: False
          show ?thesis
          proof (cases "t ! i = CHR '','' \<and> l = 0 \<and> \<not> q")
            case True
            with \<open>i < length t\<close> c nb nc nq show ?thesis
              by (subst extract_value_loop.simps) simp
          next
            case False
            from ih(4) [OF nb nc nq False] \<open>i < length t\<close> c False nb nc nq show ?thesis
              by (subst extract_value_loop.simps) (auto simp: max_def)
          qed
        qed
      qed
    qed
  next
    case False
    then show ?thesis
      by (subst extract_value_loop.simps) simp
  qed
qed

lemma skip_whitespace_total:
  "\<exists>j. skip_whitespace t i = Inr j \<and> i \<le> j \<and> j \<le> max i (length t)"
proof (induction t i rule: skip_whitespace.induct)
  case (1 t i)
  show ?case
  proof (cases "i < length t")
    case True
    then have c: "char_at t i = Inr (t ! i)"
      by (simp add: char_at_def)
    show ?thesis
    proof (cases "t ! i \<in> set [CHR '' '', TAB, NL]")
      case m: True
      from "1.IH" [OF True c m] True c m show ?thesis
        by (subst skip_whitespace.simps) (auto simp: max_def)
    next
      case False
      with True c show ?thesis
        by (subst skip_whitespace.simps) simp
    qed
  next
    case False
    then show ?thesis
      by (subst skip_whitespace.simps) simp
  qed
qed

lemma abbreviate_name_total: "\<exists>r. abbreviate_name name = Inr r"
  by (simp add: abbreviate_name_def abbreviate_loop_eq)

lemma format_author_total: "\<exists>r. format_author a = Inr r"
proof -
  obtain r where r: "\<And>n. abbreviate_name n = Inr (r n)"
    using abbreviate_name_total by metis
  show ?thesis
    by (simp add: format_author_def Let_def split1_def rsplit1_def r)
qed

lemma format_authors_total: "\<exists>r. format_authors as = Inr r"
proof (induction as)
  case Nil
  show ?case by simp
next
  case (Cons a as)
  moreover obtain f where "format_author a = Inr f"
    using format_author_total by blast
  ultimately show ?case by auto
qed

lemma split_authors_total: "\<exists>r. split_authors s = Inr r"
proof -
  obtain r where "format_authors (re_split_and s) = Inr r"
    using format_authors_total by blast
  then show ?thesis
    by (simp add: split_authors_def)
qed

lemma normalize_field_total: "\<exists>r. normalize_field k v = Inr r"
proof -
  obtain r where "split_authors v = Inr r"
    using split_authors_total by blast
  then show ?thesis
    by (simp add: normalize_field_def Let_def)
qed

lemma parse_fields_loop_total: "\<exists>fs. parse_fields_loop t i f = Inr fs"
proof (induction t i f rule: parse_fields_loop.induct)
  case (1 t i f)
  show ?case
  proof (cases "i < length t")
    case True
    then have c: "char_at t i = Inr (t ! i)"
      by (simp add: char_at_def)
    show ?thesis
    proof (cases "t ! i = CHR ''=''")
      case e: True
      obtain i1 where s: "skip_whitespace t (i + 1) = Inr i1"
        using skip_whitespace_total by blast
      obtain v i2 where x: "extract_value t i1 = Inr (v, i2)"
        using extract_value_loop_total [of t i1 0 False "[]"] by (auto simp: extract_value_def)
      obtain v' where n: "normalize_field (lower (strip (slice t (rfind_plus1 NL t i) i))) (rstrip (CHR '','') v) = Inr v'"
        using normalize_field_total by blast
      from "1.IH"(1) [OF True c e refl refl s x refl n]
      obtain fs where "parse_fields_loop t (i2 + 1) (od_set f (lower (lower (strip (slice t (rfind_plus1 NL t i) i)))) v') = Inr fs"
        by blast
      with True c e s x n show ?thesis
        by (subst parse_fields_loop.simps) (simp add: Let_def)
    next
      case False
      from "1.IH"(2) [OF True c False] True c False show ?thesis
        by (subst parse_fields_loop.simps) simp
    qed
  next
    case False
    then show ?thesis
      by (subst parse_fields_loop.simps) simp
  qed
qed

lemma split_nonempty: "split sep s \<noteq> []"
  by (induction s) (auto split: list.splits)

lemma process_bib_entry_cases:
  "process_bib_entry t es = Inr es \<or> (\<exists>k e. \<not> od_in k es \<and> process_bib_entry t es = Inr (od_set es k e))
     \<or> (\<exists>k. od_in k es \<and> process_bib_entry t es = Inl (DuplicateEntry k))"
proof -
  obtain l ls where sp: "split NL t = l # ls"
    using split_nonempty [of NL t] by (cases "split NL t") auto
  obtain fs where pf: "parse_fields (strip (join [NL] ls)) = Inr fs"
    using parse_fields_loop_total [of "strip (join [NL] ls)" 0 "[]"] by (auto simp: parse_fields_def)
  show ?thesis
    by (auto simp: process_bib_entry_def sp pf Let_def split1_def)
qed

section \<open>The records of a document\<close>

lemma scan_entry_span:
  "scan_entry content s i bc es =
     (case span_end content i bc of
        None \<Rightarrow> Inr (max i (length content), es)
      | Some j \<Rightarrow>
         (case process_bib_entry (slice content s (j + 1)) es of
            Inl e \<Rightarrow> Inl e
          | Inr es' \<Rightarrow> Inr (j, es')))"
proof (induction content s i bc es rule: scan_entry.induct)
  case (1 content s i bc es)
  show ?case
  proof (cases "i < length content")
    case True
    then have c: "char_at content i = Inr (content ! i)"
      by (simp add: char_at_def)
    from "1.IH" [OF True c] True c show ?thesis
      by (subst scan_entry.simps, subst span_end.simps) (auto simp: max_def split: option.splits sum.splits)
  next
    case False
    then show ?thesis
      by (subst scan_entry.simps, subst span_end.simps) (simp add: max_def)
  qed
qed

lemma read_loop_end: "length content \<le> i \<Longrightarrow> read_loop content i es = Inr es"
  by (subst read_loop.simps) simp

lemma record_spans_from_end: "length content \<le> i \<Longrightarrow> record_spans_from content i = []"
  by (subst record_spans_from.simps) simp

lemma read_loop_spans:
  "read_loop content i es = process_all (record_spans_from content i) es"
proof (induction content i es rule: read_loop.induct)
  case (1 content i es)
  show ?case
  proof (cases "i < length content")
    case True
    then have c: "char_at content i = Inr (content ! i)"
      by (simp add: char_at_def)
    show ?thesis
    proof (cases "content ! i = CHR ''@''")
      case at: True
      show ?thesis
      proof (cases "span_end content i 0")
        case None
        with True c at show ?thesis
          by (subst read_loop.simps, subst record_spans_from.simps)
             (simp add: scan_entry_span read_loop_end)
      next
        case (Some j)
        show ?thesis
        proof (cases "process_bib_entry (slice content i (j + 1)) es")
          case (Inl e)
          with True c at Some show ?thesis
            by (subst read_loop.simps, subst record_spans_from.simps)
               (simp add: scan_entry_span)
        next
          case (Inr es')
          with Some have sc: "scan_entry content i i 0 es = Inr (j, es')"
            by (simp add: scan_entry_span)
          from "1.IH"(1) [OF True c at sc refl] True c at Some Inr sc show ?thesis
            by (subst read_loop.simps, subst record_spans_from.simps) simp
        qed
      qed
    next
      case False
      from "1.IH"(2) [OF True c False] True c False show ?thesis
        by (subst read_loop.simps, subst record_spans_from.simps) simp
    qed
  next
    case False
    then show ?thesis
      by (simp add: read_loop_end record_spans_from_end)
  qed
qed

lemma process_all_cases:
  "(\<exists>es'. process_all ts es = Inr es') \<or> (\<exists>k. process_all ts es = Inl (DuplicateEntry k))"
proof (induction ts arbitrary: es)
  case Nil
  show ?case by simp
next
  case (Cons t ts)
  from process_bib_entry_cases [of t es] Cons.IH show ?case
    by (auto split: sum.splits)
qed

section \<open>Duplicate ids\<close>

lemma od_set_new: "\<not> od_in k es \<Longrightarrow> od_set es k e = es @ [(k, e)]"
  by (induction es) (auto simp: od_in_def)

lemma process_bib_entry_parse_entry:
  "process_bib_entry t es =
     (case parse_entry t of
        None \<Rightarrow> Inr es
      | Some (k, e) \<Rightarrow> if od_in k es then Inl (DuplicateEntry k) else Inr (es @ [(k, e)]))"
proof -
  obtain l ls where sp: "split NL t = l # ls"
    using split_nonempty [of NL t] by (cases "split NL t") auto
  obtain fs where pf: "parse_fields (strip (join [NL] ls)) = Inr fs"
    using parse_fields_loop_total [of "strip (join [NL] ls)" 0 "[]"] by (auto simp: parse_fields_def)
  have e: "\<not> od_in k ([] :: entries)" for k
    by (simp add: od_in_def)
  show ?thesis
    by (auto simp: process_bib_entry_def parse_entry_def sp pf Let_def split1_def od_set_new e)
qed

lemma process_all_records:
  assumes "distinct (map fst es)"
  shows "(distinct (map fst (es @ List.map_filter parse_entry ts)) \<longrightarrow>
            process_all ts es = Inr (es @ List.map_filter parse_entry ts)) \<and>
         (\<not> distinct (map fst (es @ List.map_filter parse_entry ts)) \<longrightarrow>
            (\<exists>k. process_all ts es = Inl (DuplicateEntry k) \<and>
                 1 < count_list (map fst (es @ List.map_filter parse_entry ts)) k))"
  using assms
proof (induction ts arbitrary: es)
  case Nil
  then show ?case by (simp add: map_filter_simps)
next
  case (Cons t ts)
  show ?case
  proof (cases "parse_entry t")
    case None
    with Cons.IH [OF Cons.prems] show ?thesis
      by (simp add: process_bib_entry_parse_entry map_filter_simps)
  next
    case (Some ke)
    obtain k e where ke: "ke = (k, e)" by (cases ke)
    let ?rest = "List.map_filter parse_entry ts"
    have mf: "List.map_filter parse_entry (t # ts) = (k, e) # ?rest"
      using Some ke by (simp add: map_filter_simps)
    show ?thesis
    proof (cases "od_in k es")
      case True
      then have "k \<in> set (map fst es)" by (simp add: od_in_def)
      then have "count_list (map fst es) k \<noteq> 0"
        by (simp only: count_list_0_iff not_not)
      then have "0 < count_list (map fst es) k"
        by simp
      then have "1 < count_list (map fst (es @ (k, e) # ?rest)) k"
        by simp
      moreover from True have "\<not> distinct (map fst (es @ (k, e) # ?rest))"
        by (auto simp: od_in_def)
      moreover from True Some ke have "process_all (t # ts) es = Inl (DuplicateEntry k)"
        by (simp add: process_bib_entry_parse_entry)
      ultimately show ?thesis
        unfolding mf by blast
    next
      case False
      with Cons.prems have d: "distinct (map fst (es @ [(k, e)]))"
        by (auto simp: od_in_def)
      from False Some ke have p: "process_all (t # ts) es = process_all ts (es @ [(k, e)])"
        by (simp add: process_bib_entry_parse_entry)
      from Cons.IH [OF d] show ?thesis
        unfolding mf p by simp
    qed
  qed
qed

text \<open>
  C2. \<open>process_bib_entry\<close> on a record whose id is in the collection exits with the
  duplicate error that names the id, and otherwise appends the entry and changes no
  entry of the collection. So \<open>read_bibtex_entries\<close> on a document in which two records
  have the same id exits with the duplicate error naming an id that two records have, and
  on a document whose record ids are distinct it returns the parsed records, in order.
\<close>

theorem duplicate_ids_fatal:
  "(case parse_entry entry_text of
      None \<Rightarrow> process_bib_entry entry_text entries = Inr entries
    | Some (k, e) \<Rightarrow>
        process_bib_entry entry_text entries =
          (if od_in k entries then Inl (DuplicateEntry k) else Inr (entries @ [(k, e)]))) \<and>
   (distinct (record_ids content) \<longrightarrow> read_bibtex_entries content = Inr (records content)) \<and>
   (\<not> distinct (record_ids content) \<longrightarrow>
      (\<exists>k. read_bibtex_entries content = Inl (DuplicateEntry k) \<and>
           1 < count_list (record_ids content) k))"
proof -
  have 1: "(case parse_entry entry_text of
      None \<Rightarrow> process_bib_entry entry_text entries = Inr entries
    | Some (k, e) \<Rightarrow>
        process_bib_entry entry_text entries =
          (if od_in k entries then Inl (DuplicateEntry k) else Inr (entries @ [(k, e)])))"
    by (simp add: process_bib_entry_parse_entry split: option.splits)
  have r: "read_bibtex_entries content = process_all (record_spans content) []"
    by (simp add: read_bibtex_entries_def read_loop_spans record_spans_def)
  from process_all_records [of "[]" "record_spans content"] 1 show ?thesis
    by (simp add: r records_def record_ids_def)
qed

theorem duplicate_ids_fatal_witness:
  "read_bibtex_entries (''@article{k,'' @ [NL] @ '' title = {A},'' @ [NL] @ ''}'' @ [NL] @
                        ''@book{k,'' @ [NL] @ '' title = {B},'' @ [NL] @ ''}'') =
     Inl (DuplicateEntry ''k'') \<and>
   read_bibtex_entries (''@article{k,'' @ [NL] @ '' title = {A},'' @ [NL] @ ''}'' @ [NL] @
                        ''@book{j,'' @ [NL] @ '' title = {B},'' @ [NL] @ ''}'') =
     Inr [(''k'', \<lparr>type = ''article'', fields' = [(''title'', ''A'')]\<rparr>),
          (''j'', \<lparr>type = ''book'', fields' = [(''title'', ''B'')]\<rparr>)]"
proof -
  let ?dup = "''@article{k,'' @ [NL] @ '' title = {A},'' @ [NL] @ ''}'' @ [NL] @
              ''@book{k,'' @ [NL] @ '' title = {B},'' @ [NL] @ ''}''"
  let ?ok = "''@article{k,'' @ [NL] @ '' title = {A},'' @ [NL] @ ''}'' @ [NL] @
             ''@book{j,'' @ [NL] @ '' title = {B},'' @ [NL] @ ''}''"
  have i: "record_ids ?dup = [''k'', ''k'']"
    by code_simp
  have r: "records ?ok = [(''k'', \<lparr>type = ''article'', fields' = [(''title'', ''A'')]\<rparr>),
                          (''j'', \<lparr>type = ''book'', fields' = [(''title'', ''B'')]\<rparr>)]"
    by code_simp
  from duplicate_ids_fatal [of _ _ ?dup] i
  have "\<exists>k. read_bibtex_entries ?dup = Inl (DuplicateEntry k) \<and> 1 < count_list [''k'', ''k''] k"
    by simp
  then have 1: "read_bibtex_entries ?dup = Inl (DuplicateEntry ''k'')"
    by (auto split: if_splits)
  from duplicate_ids_fatal [of _ _ ?ok] r have 2: "read_bibtex_entries ?ok = Inr (records ?ok)"
    by (simp add: record_ids_def)
  from 1 2 r show ?thesis by simp
qed

section \<open>Totality of the scanners\<close>

text \<open>
  C9 (amended). Each loop is a recursive function whose index grows at every call and whose
  termination is proved on the distance of the index to the length of the text, and every
  character read is read through \<open>char_at\<close>, which raises IndexError out of range. For
  every text and every start index \<open>extract_value\<close> returns a value and an index between
  the start and the length of the text (the start itself when it is beyond the length);
  \<open>parse_fields\<close> returns a field mapping; and \<open>read_bibtex_entries\<close> either returns a
  collection or stops in the fatal exit of \<open>process_bib_entry\<close> on a duplicate id. No
  IndexError and no other exception arises.
\<close>

theorem scanners_total:
  "(\<exists>v j. extract_value text start = Inr (v, j) \<and> start \<le> j \<and> j \<le> max start (length text)) \<and>
   (\<exists>fs. parse_fields text = Inr fs) \<and>
   ((\<exists>es. read_bibtex_entries text = Inr es) \<or>
    (\<exists>k. read_bibtex_entries text = Inl (DuplicateEntry k)))"
proof (intro conjI)
  show "\<exists>v j. extract_value text start = Inr (v, j) \<and> start \<le> j \<and> j \<le> max start (length text)"
    unfolding extract_value_def by (rule extract_value_loop_total)
next
  show "\<exists>fs. parse_fields text = Inr fs"
    unfolding parse_fields_def by (rule parse_fields_loop_total)
next
  show "(\<exists>es. read_bibtex_entries text = Inr es) \<or>
    (\<exists>k. read_bibtex_entries text = Inl (DuplicateEntry k))"
    unfolding read_bibtex_entries_def read_loop_spans by (rule process_all_cases)
qed

theorem scanners_total_witness:
  "(\<exists>v j. extract_value ''a = {b}, c'' 4 = Inr (v, j) \<and> 4 \<le> j \<and> j \<le> length ''a = {b}, c'') \<and>
   (\<exists>fs. parse_fields ''a = {b}, c'' = Inr fs) \<and>
   ((\<exists>es. read_bibtex_entries ''a = {b}, c'' = Inr es) \<or>
    (\<exists>k. read_bibtex_entries ''a = {b}, c'' = Inl (DuplicateEntry k)))"
  using scanners_total [of "''a = {b}, c''" 4] by simp

text \<open>
  C9 as stated fails for the record scan on a document with a repeated id: the scan does
  not return a collection, \<open>process_bib_entry\<close> exits.
\<close>

theorem read_duplicate_counterexample:
  "read_bibtex_entries (''@article{k,'' @ [NL] @ ''}'' @ [NL] @ ''@book{k,'' @ [NL] @ ''}'') =
     Inl (DuplicateEntry ''k'')"
  by code_simp

section \<open>Record boundaries\<close>










section \<open>Parsing the serializer's output\<close>


























end
